theory Spec2Isabelle
  imports Main
begin

section \<open>JavaScript string primitives used by the models\<close>

text \<open>
  A JavaScript string is modelled as a \<^typ>\<open>string\<close>; a character stands for the code
  point of the same number (U+0000 to U+00FF). The predicates below are the character
  classes the source's regular expressions and \<^verbatim>\<open>String.prototype\<close> methods use,
  restricted to that range. The classes \<^verbatim>\<open>[a-z0-9]\<close> and \<^verbatim>\<open>[0-9]\<close>, the hyphen, the
  colon and the at-sign lie inside it.
\<close>

definition codeOf :: "char \<Rightarrow> nat" where
  "codeOf c = of_char c"

text \<open>The regex class \<^verbatim>\<open>[0-9]\<close>.\<close>

definition isDigit :: "char \<Rightarrow> bool" where
  "isDigit c \<longleftrightarrow> 48 \<le> codeOf c \<and> codeOf c \<le> 57"

text \<open>The regex class \<^verbatim>\<open>[a-z0-9]\<close>; its complement is \<^verbatim>\<open>[^a-z0-9]\<close>.\<close>

definition isSlugChar :: "char \<Rightarrow> bool" where
  "isSlugChar c \<longleftrightarrow> (97 \<le> codeOf c \<and> codeOf c \<le> 122) \<or> (48 \<le> codeOf c \<and> codeOf c \<le> 57)"

text \<open>
  ECMAScript WhiteSpace and LineTerminator code points (what \<^verbatim>\<open>trim()\<close> removes and
  what \<^verbatim>\<open>\s\<close> matches) below U+0100: TAB, LF, VT, FF, CR, SPACE, NBSP.
\<close>

definition isWhiteSpace :: "char \<Rightarrow> bool" where
  "isWhiteSpace c \<longleftrightarrow> codeOf c \<in> {9, 10, 11, 12, 13, 32, 160}"

text \<open>
  \<^verbatim>\<open>toLowerCase()\<close>: the code points below U+0100 with a lowercase mapping are
  A-Z and U+00C0-U+00DE without U+00D7; each maps to the code point 32 above it.
\<close>

definition isUpper :: "char \<Rightarrow> bool" where
  "isUpper c \<longleftrightarrow> (65 \<le> codeOf c \<and> codeOf c \<le> 90) \<or>
     (192 \<le> codeOf c \<and> codeOf c \<le> 222 \<and> codeOf c \<noteq> 215)"

definition toLowerChar :: "char \<Rightarrow> char" where
  "toLowerChar c = (if isUpper c then char_of (codeOf c + 32) else c)"

definition toLowerCase :: "string \<Rightarrow> string" where
  "toLowerCase s = map toLowerChar s"

text \<open>Removing the longest suffix whose elements all satisfy a predicate.\<close>

definition dropEnd :: "('a \<Rightarrow> bool) \<Rightarrow> 'a list \<Rightarrow> 'a list" where
  "dropEnd P xs = rev (dropWhile P (rev xs))"

text \<open>\<^verbatim>\<open>trim()\<close>: drop the leading and the trailing white space.\<close>

definition trimStart :: "string \<Rightarrow> string" where
  "trimStart s = dropWhile isWhiteSpace s"

definition trimEnd :: "string \<Rightarrow> string" where
  "trimEnd s = dropEnd isWhiteSpace s"

definition trim :: "string \<Rightarrow> string" where
  "trim s = trimEnd (trimStart s)"

section \<open>Event model: slugify\<close>

abbreviation nonSlug :: "char \<Rightarrow> bool" where
  "nonSlug c \<equiv> \<not> isSlugChar c"

text \<open>
  \<^verbatim>\<open>.replace(/[^a-z0-9]+/g, '-')\<close>: scanning from the left, a character of
  \<^verbatim>\<open>[a-z0-9]\<close> is copied; at any other character the greedy \<^verbatim>\<open>+\<close> consumes the
  whole run of such characters and one hyphen is emitted for it.
\<close>

function replaceNonSlugRuns :: "string \<Rightarrow> string" where
  "replaceNonSlugRuns [] = []"
| "replaceNonSlugRuns (c # cs) =
     (if isSlugChar c then c # replaceNonSlugRuns cs
      else CHR ''-'' # replaceNonSlugRuns (dropWhile nonSlug cs))"
  by pat_completeness auto
termination
  by (relation "measure length") (auto simp: le_imp_less_Suc length_dropWhile_le)

text \<open>
  \<^verbatim>\<open>.replace(/^-+|-+$/g, '')\<close>: the first alternative matches the run of hyphens at
  the start of the input, the second the run of hyphens that reaches its end; both
  are replaced by the empty string.
\<close>

definition isHyphen :: "char \<Rightarrow> bool" where
  "isHyphen c \<longleftrightarrow> c = CHR ''-''"

definition stripEdgeHyphens :: "string \<Rightarrow> string" where
  "stripEdgeHyphens s = dropEnd isHyphen (dropWhile isHyphen s)"

definition slugify :: "string \<Rightarrow> string" where
  "slugify v = stripEdgeHyphens (replaceNonSlugRuns (trim (toLowerCase v)))"

section \<open>Event model: normalizeTime\<close>

text \<open>
  \<^verbatim>\<open>/^([0-9]{1,2}):([0-9]{2})$/.exec(trimmed)\<close>, returning the two capture groups.
  The greedy \<^verbatim>\<open>{1,2}\<close> takes two digits when the input starts with two; giving one
  back cannot help, since the colon would then have to match a digit. After the
  hour the rest of the input must be exactly a colon and two digits.
\<close>

definition execTimeRegex :: "string \<Rightarrow> (string \<times> string) option" where
  "execTimeRegex s =
     (let h = take 2 (takeWhile isDigit s) in
      if h = [] then None
      else (case drop (length h) s of
              [c, m1, m2] \<Rightarrow>
                if c = CHR '':'' \<and> isDigit m1 \<and> isDigit m2 then Some (h, [m1, m2]) else None
            | _ \<Rightarrow> None))"

text \<open>
  \<^verbatim>\<open>Number(str)\<close> on a string of decimal digits. The result is an integer, so the
  \<^verbatim>\<open>Number.isInteger\<close> guard of the source never fires on a capture group and has
  no branch in the model.
\<close>

definition digitValue :: "char \<Rightarrow> int" where
  "digitValue c = int (codeOf c) - 48"

definition numberOfDigits :: "string \<Rightarrow> int" where
  "numberOfDigits s = foldl (\<lambda>n c. 10 * n + digitValue c) 0 s"

text \<open>\<^verbatim>\<open>n.toString()\<close> for a non-negative integer: its decimal digits.\<close>

definition digitChar :: "nat \<Rightarrow> char" where
  "digitChar d = char_of (48 + d)"

function natToString :: "nat \<Rightarrow> string" where
  "natToString n = (if n < 10 then [digitChar n] else natToString (n div 10) @ [digitChar (n mod 10)])"
  by pat_completeness auto
termination
  by (relation "measure id") auto

declare natToString.simps [simp del]

text \<open>\<^verbatim>\<open>str.padStart(2, '0')\<close>.\<close>

definition padStart2 :: "string \<Rightarrow> string" where
  "padStart2 s = replicate (2 - length s) CHR ''0'' @ s"

definition normalizeTime :: "string \<Rightarrow> string option" where
  "normalizeTime raw =
     (let trimmed = trim raw in
      case execTimeRegex trimmed of
        None \<Rightarrow> None
      | Some (g1, g2) \<Rightarrow>
          let hours = numberOfDigits g1; minutes = numberOfDigits g2 in
          if hours < 0 \<or> hours > 23 \<or> minutes < 0 \<or> minutes > 59 then None
          else
            let hh = padStart2 (natToString (nat hours));
                mm = padStart2 (natToString (nat minutes))
            in Some (hh @ '':'' @ mm))"

section \<open>Event model: schema validators and the pre-save hook\<close>

text \<open>
  The fields of \<^verbatim>\<open>EventDocument\<close>; the path \<^verbatim>\<open>image\<close> is the field \<open>imageUrl\<close>. The
  two timestamps are dates, counted in time units, and are unset until a save
  sets them.
\<close>

record event =
  title :: string
  slug :: "string option"
  description :: string
  overview :: string
  imageUrl :: string
  venue :: string
  location :: string
  date :: string
  time :: string
  mode :: string
  audience :: string
  agenda :: "string list"
  organizer :: string
  tags :: "string list"
  createdAt :: "nat option"
  updatedAt :: "nat option"

datatype error =
    ValidationFailure "string list"
  | InvalidDateFormat
  | InvalidTimeFormat
  | UniquenessViolation
  | DanglingReference
  | ConnectionFailure
  | StorageFailure

text \<open>JavaScript's \<^verbatim>\<open>!v\<close> on a value that is a string, \<^verbatim>\<open>null\<close> or \<^verbatim>\<open>undefined\<close>.\<close>

definition isFalsy :: "string option \<Rightarrow> bool" where
  "isFalsy v = (case v of None \<Rightarrow> True | Some s \<Rightarrow> s = [])"

definition nonEmptyStringValidator :: "string \<Rightarrow> bool" where
  "nonEmptyStringValidator v \<longleftrightarrow> length (trim v) > 0"

text \<open>The validator of \<^verbatim>\<open>agenda\<close> and of \<^verbatim>\<open>tags\<close>.\<close>

definition nonEmptyArrayValidator :: "string list \<Rightarrow> bool" where
  "nonEmptyArrayValidator v \<longleftrightarrow> length v > 0 \<and> list_all nonEmptyStringValidator v"

text \<open>
  The schema: every string path but \<^verbatim>\<open>slug\<close> is \<^verbatim>\<open>required\<close> and carries
  \<^const>\<open>nonEmptyStringValidator\<close>; \<^verbatim>\<open>agenda\<close> and \<^verbatim>\<open>tags\<close> carry the array validator;
  \<^verbatim>\<open>slug\<close> has neither \<^verbatim>\<open>required\<close> nor a validator. The result lists the paths
  whose validation fails, in schema order.
\<close>

definition checkPath :: "string \<Rightarrow> bool \<Rightarrow> string list" where
  "checkPath path ok = (if ok then [] else [path])"

definition eventValidate :: "event \<Rightarrow> string list" where
  "eventValidate e =
     checkPath ''title'' (nonEmptyStringValidator (title e)) @
     checkPath ''description'' (nonEmptyStringValidator (description e)) @
     checkPath ''overview'' (nonEmptyStringValidator (overview e)) @
     checkPath ''image'' (nonEmptyStringValidator (imageUrl e)) @
     checkPath ''venue'' (nonEmptyStringValidator (venue e)) @
     checkPath ''location'' (nonEmptyStringValidator (location e)) @
     checkPath ''date'' (nonEmptyStringValidator (date e)) @
     checkPath ''time'' (nonEmptyStringValidator (time e)) @
     checkPath ''mode'' (nonEmptyStringValidator (mode e)) @
     checkPath ''audience'' (nonEmptyStringValidator (audience e)) @
     checkPath ''agenda'' (nonEmptyArrayValidator (agenda e)) @
     checkPath ''organizer'' (nonEmptyStringValidator (organizer e)) @
     checkPath ''tags'' (nonEmptyArrayValidator (tags e))"

text \<open>
  \<^verbatim>\<open>this.isModified(path)\<close>: the document carries the list of its modified paths.
\<close>

definition isModified :: "string list \<Rightarrow> string \<Rightarrow> bool" where
  "isModified modifiedPaths path \<longleftrightarrow> List.member modifiedPaths path"

text \<open>
  The three blocks of the pre-save hook. Each takes the document (\<^verbatim>\<open>this\<close>) and
  returns it as the block leaves it, with the error thrown, if any. The hook
  mutates \<^verbatim>\<open>this\<close> in place, so an assignment made by an earlier block stays when a
  later block throws.

  \<^verbatim>\<open>new Date(s)\<close> followed by \<^verbatim>\<open>toISOString()\<close> is a parameter \<open>toISO\<close>: a partial
  map that is undefined where the parsed time value is \<^verbatim>\<open>NaN\<close>.
\<close>

definition slugBlock :: "string list \<Rightarrow> event \<Rightarrow> event" where
  "slugBlock modifiedPaths this =
     (if isModified modifiedPaths ''title'' \<or> isFalsy (slug this)
      then this\<lparr>slug := Some (slugify (title this))\<rparr>
      else this)"

definition dateBlock :: "(string \<rightharpoonup> string) \<Rightarrow> string list \<Rightarrow> event \<Rightarrow> event \<times> error option" where
  "dateBlock toISO modifiedPaths this =
     (if isModified modifiedPaths ''date''
      then (case toISO (date this) of
              None \<Rightarrow> (this, Some InvalidDateFormat)
            | Some isoString \<Rightarrow> (this\<lparr>date := isoString\<rparr>, None))
      else (this, None))"

definition timeBlock :: "string list \<Rightarrow> event \<Rightarrow> event \<times> error option" where
  "timeBlock modifiedPaths this =
     (if isModified modifiedPaths ''time''
      then (let normalized = normalizeTime (time this) in
            case normalized of
              None \<Rightarrow> (this, Some InvalidTimeFormat)
            | Some t \<Rightarrow> if isFalsy normalized then (this, Some InvalidTimeFormat)
                        else (this\<lparr>time := t\<rparr>, None))
      else (this, None))"

definition eventPreSave :: "(string \<rightharpoonup> string) \<Rightarrow> string list \<Rightarrow> event \<Rightarrow> event \<times> error option" where
  "eventPreSave toISO modifiedPaths this =
     (case dateBlock toISO modifiedPaths (slugBlock modifiedPaths this) of
        (this1, Some err) \<Rightarrow> (this1, Some err)
      | (this1, None) \<Rightarrow> timeBlock modifiedPaths this1)"

section \<open>Storage and saving\<close>

text \<open>
  A collection is the list of its documents with their \<^verbatim>\<open>_id\<close>. Saving a document
  runs the schema validators, then the hooks registered with \<^verbatim>\<open>pre('save')\<close> in the
  order of their registration, then the write; the unique index on \<^verbatim>\<open>slug\<close> rejects
  a write whose slug another document of the collection holds. A document is new
  when the collection holds no document of its \<^verbatim>\<open>_id\<close>.
\<close>

record booking =
  eventId :: nat
  email :: string

record database =
  events :: "(nat \<times> event) list"
  bookings :: "(nat \<times> booking) list"

definition slugTaken :: "(nat \<times> event) list \<Rightarrow> nat \<Rightarrow> string option \<Rightarrow> bool" where
  "slugTaken coll oid s \<longleftrightarrow> list_ex (\<lambda>(i, e). i \<noteq> oid \<and> slug e = s) coll"

definition putDoc :: "(nat \<times> 'a) list \<Rightarrow> nat \<Rightarrow> 'a \<Rightarrow> (nat \<times> 'a) list" where
  "putDoc coll oid d = filter (\<lambda>(i, _). i \<noteq> oid) coll @ [(oid, d)]"

definition isNewDoc :: "(nat \<times> 'a) list \<Rightarrow> nat \<Rightarrow> bool" where
  "isNewDoc coll oid \<longleftrightarrow> \<not> list_ex (\<lambda>(i, _). i = oid) coll"

text \<open>
  The schema option \<^verbatim>\<open>timestamps: true\<close> registers a pre-save hook when the schema
  is built, hence ahead of the hook of the source: at the current time \<open>now\<close>, a
  new document without \<^verbatim>\<open>createdAt\<close> gets it set; \<^verbatim>\<open>updatedAt\<close> is set on a new
  document (to its \<^verbatim>\<open>createdAt\<close>) and on a document with a modified path (to \<open>now\<close>).
\<close>

definition timestampsPreSave :: "nat \<Rightarrow> bool \<Rightarrow> string list \<Rightarrow> event \<Rightarrow> event" where
  "timestampsPreSave now isNew modifiedPaths this =
     (let this1 = (if isNew \<and> createdAt this = None then this\<lparr>createdAt := Some now\<rparr> else this)
      in if isNew then this1\<lparr>updatedAt := createdAt this1\<rparr>
         else if modifiedPaths \<noteq> [] then this1\<lparr>updatedAt := Some now\<rparr>
         else this1)"

definition eventSave ::
  "(string \<rightharpoonup> string) \<Rightarrow> nat \<Rightarrow> database \<Rightarrow> nat \<Rightarrow> string list \<Rightarrow> event \<Rightarrow>
     database \<times> (error + event)" where
  "eventSave toISO now db oid modifiedPaths this =
     (case eventValidate this of
        p # ps \<Rightarrow> (db, Inl (ValidationFailure (p # ps)))
      | [] \<Rightarrow>
          (case eventPreSave toISO modifiedPaths
                  (timestampsPreSave now (isNewDoc (events db) oid) modifiedPaths this) of
             (this1, Some err) \<Rightarrow> (db, Inl err)
           | (this1, None) \<Rightarrow>
               if slugTaken (events db) oid (slug this1) then (db, Inl UniquenessViolation)
               else (db\<lparr>events := putDoc (events db) oid this1\<rparr>, Inr this1)))"

section \<open>Booking model\<close>

text \<open>
  \<^verbatim>\<open>EMAIL_REGEX = /^[^\s@]+@[^\s@]+\.[^\s@]+$/\<close>. The greedy first class stops at
  a white-space character, an at-sign or the end, so the next character has to be
  the at-sign; what follows must consist of class characters only and contain a
  dot with at least one character before it and one after it.
\<close>

definition isEmailChar :: "char \<Rightarrow> bool" where
  "isEmailChar c \<longleftrightarrow> \<not> isWhiteSpace c \<and> c \<noteq> CHR ''@''"

definition emailRegexTest :: "string \<Rightarrow> bool" where
  "emailRegexTest s =
     (if takeWhile isEmailChar s = [] then False
      else (case dropWhile isEmailChar s of
              [] \<Rightarrow> False
            | c # domainPart \<Rightarrow> c = CHR ''@'' \<and> list_all isEmailChar domainPart \<and>
                         List.member (butlast (tl domainPart)) CHR ''.''))"

definition bookingValidate :: "booking \<Rightarrow> string list" where
  "bookingValidate b = checkPath ''email'' (email b \<noteq> [] \<and> emailRegexTest (email b))"

text \<open>\<^verbatim>\<open>Event.exists({ _id: this.eventId })\<close>.\<close>

definition eventExists :: "database \<Rightarrow> nat \<Rightarrow> bool" where
  "eventExists db oid \<longleftrightarrow> list_ex (\<lambda>(i, _). i = oid) (events db)"

definition bookingPreSave :: "database \<Rightarrow> booking \<Rightarrow> error option" where
  "bookingPreSave db this =
     (if \<not> eventExists db (eventId this) then Some DanglingReference else None)"

definition bookingSave :: "database \<Rightarrow> nat \<Rightarrow> booking \<Rightarrow> database \<times> (error + booking)" where
  "bookingSave db oid this =
     (case bookingValidate this of
        p # ps \<Rightarrow> (db, Inl (ValidationFailure (p # ps)))
      | [] \<Rightarrow>
          (case bookingPreSave db this of
             Some err \<Rightarrow> (db, Inl err)
           | None \<Rightarrow> (db\<lparr>bookings := putDoc (bookings db) oid this\<rparr>, Inr this)))"

section \<open>Route handler: GET /api/events/[slug]\<close>

text \<open>
  \<^verbatim>\<open>SLUG_REGEX = /^[a-z0-9]+(?:-[a-z0-9]+)*$/\<close> with \<^verbatim>\<open>test\<close>. The greedy class
  takes the whole first segment; the input then either ends or continues with a
  hyphen followed by an input of the same form.
\<close>

function slugRegexTest :: "string \<Rightarrow> bool" where
  "slugRegexTest s =
     (if takeWhile isSlugChar s = [] then False
      else (case dropWhile isSlugChar s of
              [] \<Rightarrow> True
            | c # rest \<Rightarrow> c = CHR ''-'' \<and> slugRegexTest rest))"
  by pat_completeness auto
termination
proof (relation "measure length")
  show "wf (measure length)" by simp
next
  fix s :: string and c rest
  assume "dropWhile isSlugChar s = c # rest"
  then have "length (c # rest) \<le> length s"
    using length_dropWhile_le[of isSlugChar s] by simp
  then show "(rest, s) \<in> measure length" by simp
qed

declare slugRegexTest.simps [simp del]

text \<open>
  The request as the handler reads it: the route parameters are a promise that
  rejects or resolves to an object whose \<^verbatim>\<open>slug\<close> may be missing, and
  \<^verbatim>\<open>url.searchParams.get("slug")\<close> is a string or \<^verbatim>\<open>null\<close> (the request's URL is
  taken to be well-formed, so that \<^verbatim>\<open>new URL(req.url)\<close> returns).
\<close>

datatype routeParams = ParamsRejected | ParamsResolved "string option"

record request =
  params :: routeParams
  querySlug :: "string option"

record response =
  status :: nat
  message :: string
  body :: "event option"

definition jsonError :: "string \<Rightarrow> nat \<Rightarrow> response" where
  "jsonError msg st = \<lparr>status = st, message = msg, body = None\<rparr>"

definition isNonBlank :: "string option \<Rightarrow> bool" where
  "isNonBlank v = (case v of None \<Rightarrow> False | Some s \<Rightarrow> length (trim s) > 0)"

definition getSlug :: "request \<Rightarrow> string option" where
  "getSlug req =
     (let fromParams = (case params req of ParamsRejected \<Rightarrow> None | ParamsResolved v \<Rightarrow> v) in
      if isNonBlank fromParams then fromParams
      else let fromQuery = querySlug req in
           if isNonBlank fromQuery then fromQuery else None)"

text \<open>
  The database as the handler meets it: whether \<^verbatim>\<open>connectToDatabase()\<close> resolves,
  whether the query resolves, and the Event collection. The handler returns its
  response together with the database operations it started, in order.
\<close>

datatype dbOp = OpConnect | OpFindOne string

record dbEnv =
  connectResolves :: bool
  queryResolves :: bool
  collection :: "(nat \<times> event) list"

definition findOneBySlug :: "(nat \<times> event) list \<Rightarrow> string \<Rightarrow> event option" where
  "findOneBySlug coll s = map_option snd (find (\<lambda>(i, e). slug e = Some s) coll)"

text \<open>The body of the \<^verbatim>\<open>try\<close> block: \<open>Inl\<close> is an exception leaving it.\<close>

definition missingSlug :: response where
  "missingSlug =
     jsonError ''Missing required slug. Use /api/events/{slug} (preferred) or /api/events?slug={slug}.'' 400"

definition invalidSlug :: response where
  "invalidSlug =
     jsonError ''Invalid slug format. Expected lowercase letters/numbers with optional hyphens (e.g. 'my-event-1').'' 400"

definition GET_try :: "dbEnv \<Rightarrow> request \<Rightarrow> (error + response) \<times> dbOp list" where
  "GET_try env req =
     (case getSlug req of
        None \<Rightarrow> (Inr missingSlug, [])
      | Some s \<Rightarrow>
          if s = [] then (Inr missingSlug, [])
          else if \<not> slugRegexTest s then (Inr invalidSlug, [])
          else if \<not> connectResolves env then (Inl ConnectionFailure, [OpConnect])
          else if \<not> queryResolves env then (Inl StorageFailure, [OpConnect, OpFindOne s])
          else
            (case findOneBySlug (collection env) s of
               None \<Rightarrow> (Inr (jsonError ''Event not found.'' 404), [OpConnect, OpFindOne s])
             | Some ev \<Rightarrow>
                 (Inr \<lparr>status = 200, message = ''Event fetched successfully'', body = Some ev\<rparr>,
                  [OpConnect, OpFindOne s])))"

definition GET :: "dbEnv \<Rightarrow> request \<Rightarrow> response \<times> dbOp list" where
  "GET env req =
     (case GET_try env req of
        (Inl err, ops) \<Rightarrow> (jsonError ''Unexpected server error.'' 500, ops)
      | (Inr res, ops) \<Rightarrow> (res, ops))"

section \<open>Connection manager: connectToDatabase\<close>

text \<open>
  \<^verbatim>\<open>connectToDatabase\<close> is an async function: a call runs up to its \<^verbatim>\<open>await\<close>
  without interruption, is suspended there, and is resumed once the awaited promise
  has settled. Calls of different callers interleave at these points only. The
  process state is the cache object (\<^verbatim>\<open>cached.conn\<close>, \<^verbatim>\<open>cached.promise\<close>), the
  promises created so far by \<^verbatim>\<open>mongoose.connect(...).then(...)\<close> (one per connect
  attempt, named by its index), and where each call stands. A handle is named by
  a number; the promise of an attempt is fulfilled with a handle or rejected.
  The copy of the cache object kept on \<^verbatim>\<open>globalThis\<close> serves module reloads only
  and is not part of the state; the module-level check of \<^verbatim>\<open>MONGODB_URI\<close> happens
  before any call.
\<close>

type_synonym handle = nat

datatype promiseState = Pending | Fulfilled handle | Rejected

datatype callState = NotCalled | Awaiting nat | Returned handle | Threw

record connCache =
  conn :: "handle option"
  promise :: "nat option"

record process =
  cached :: connCache
  promises :: "promiseState list"
  calls :: "callState list"

definition initialProcess :: "nat \<Rightarrow> process" where
  "initialProcess n =
     \<lparr>cached = \<lparr>conn = None, promise = None\<rparr>, promises = [], calls = replicate n NotCalled\<rparr>"

text \<open>The synchronous part of a call: from entry to the \<^verbatim>\<open>await\<close> (or the early return).\<close>

definition connectToDatabase_enter :: "nat \<Rightarrow> process \<Rightarrow> process option" where
  "connectToDatabase_enter c s =
     (if c < length (calls s) \<and> calls s ! c = NotCalled then
        (case conn (cached s) of
           Some h \<Rightarrow> Some (s\<lparr>calls := (calls s)[c := Returned h]\<rparr>)
         | None \<Rightarrow>
             (case promise (cached s) of
                None \<Rightarrow>
                  let p = length (promises s) in
                  Some (s\<lparr>cached := (cached s)\<lparr>promise := Some p\<rparr>,
                          promises := promises s @ [Pending],
                          calls := (calls s)[c := Awaiting p]\<rparr>)
              | Some p \<Rightarrow> Some (s\<lparr>calls := (calls s)[c := Awaiting p]\<rparr>)))
      else None)"

text \<open>
  The continuation after \<^verbatim>\<open>await cached.promise\<close>: on fulfilment the handle is
  stored in \<^verbatim>\<open>cached.conn\<close> and returned; on rejection the \<^verbatim>\<open>await\<close> throws and the
  call ends with the cache untouched.
\<close>

definition connectToDatabase_resume :: "nat \<Rightarrow> process \<Rightarrow> process option" where
  "connectToDatabase_resume c s =
     (if c < length (calls s) then
        (case calls s ! c of
           Awaiting p \<Rightarrow>
             (if p < length (promises s) then
                (case promises s ! p of
                   Pending \<Rightarrow> None
                 | Fulfilled h \<Rightarrow>
                     Some (s\<lparr>cached := (cached s)\<lparr>conn := Some h\<rparr>,
                             calls := (calls s)[c := Returned h]\<rparr>)
                 | Rejected \<Rightarrow> Some (s\<lparr>calls := (calls s)[c := Threw]\<rparr>))
              else None)
         | _ \<Rightarrow> None)
      else None)"

text \<open>The driver settles a pending connect attempt: with a handle, or by rejecting.\<close>

definition settle :: "nat \<Rightarrow> handle option \<Rightarrow> process \<Rightarrow> process option" where
  "settle p outcome s =
     (if p < length (promises s) \<and> promises s ! p = Pending then
        Some (s\<lparr>promises := (promises s)[p := (case outcome of Some h \<Rightarrow> Fulfilled h | None \<Rightarrow> Rejected)]\<rparr>)
      else None)"

datatype action = Call nat | Settle nat "handle option" | Resume nat

fun step :: "action \<Rightarrow> process \<Rightarrow> process option" where
  "step (Call c) s = connectToDatabase_enter c s"
| "step (Settle p outcome) s = settle p outcome s"
| "step (Resume c) s = connectToDatabase_resume c s"

fun run :: "action list \<Rightarrow> process \<Rightarrow> process option" where
  "run [] s = Some s"
| "run (a # as) s = (case step a s of None \<Rightarrow> None | Some s' \<Rightarrow> run as s')"

text \<open>The connect attempts started so far, and those still outstanding.\<close>

definition attempts :: "process \<Rightarrow> nat" where
  "attempts s = length (promises s)"

definition outstanding :: "process \<Rightarrow> nat" where
  "outstanding s = length (filter (\<lambda>p. p = Pending) (promises s))"

text \<open>
  What holds of the cache in every state the process can reach: a call that has
  got past its entry refers to the one attempt, and a call that has returned or
  thrown agrees with how that attempt settled.
\<close>

definition callOk :: "promiseState list \<Rightarrow> callState \<Rightarrow> bool" where
  "callOk ps x =
     (case x of
        NotCalled \<Rightarrow> True
      | Awaiting p \<Rightarrow> p = 0 \<and> ps \<noteq> []
      | Returned h \<Rightarrow> ps = [Fulfilled h]
      | Threw \<Rightarrow> ps = [Rejected])"

definition cacheInv :: "process \<Rightarrow> bool" where
  "cacheInv s \<longleftrightarrow>
     length (promises s) \<le> 1 \<and>
     promise (cached s) = (if promises s = [] then None else Some 0) \<and>
     (case conn (cached s) of None \<Rightarrow> True | Some h \<Rightarrow> promises s = [Fulfilled h]) \<and>
     list_all (callOk (promises s)) (calls s)"

section \<open>The specification's wording of slugify and normalizeTime\<close>

text \<open>
  The specification describes the slug as: lowercase the title, replace every
  maximal run of characters outside \<^verbatim>\<open>[a-z0-9]\<close> with a single hyphen, strip
  leading and trailing hyphens. \<open>maximalRuns\<close> cuts a list into its maximal runs of
  elements on which a predicate is constant.
\<close>

function maximalRuns :: "('a \<Rightarrow> bool) \<Rightarrow> 'a list \<Rightarrow> 'a list list" where
  "maximalRuns P [] = []"
| "maximalRuns P (x # xs) =
     (x # takeWhile (\<lambda>y. P y = P x) xs) # maximalRuns P (dropWhile (\<lambda>y. P y = P x) xs)"
  by pat_completeness auto
termination
  by (relation "measure (\<lambda>(P, xs). length xs)") (auto simp: le_imp_less_Suc length_dropWhile_le)

definition spec_replaceRun :: "string \<Rightarrow> string" where
  "spec_replaceRun r = (case r of [] \<Rightarrow> [] | c # _ \<Rightarrow> if isSlugChar c then r else ''-'')"

definition spec_replaceRuns :: "string \<Rightarrow> string" where
  "spec_replaceRuns s = concat (map spec_replaceRun (maximalRuns isSlugChar s))"

fun spec_stripLeadingHyphens :: "string \<Rightarrow> string" where
  "spec_stripLeadingHyphens [] = []"
| "spec_stripLeadingHyphens (c # cs) =
     (if c = CHR ''-'' then spec_stripLeadingHyphens cs else c # cs)"

definition spec_slugify :: "string \<Rightarrow> string" where
  "spec_slugify s =
     rev (spec_stripLeadingHyphens (rev (spec_stripLeadingHyphens
       (spec_replaceRuns (toLowerCase s)))))"

text \<open>
  The specification describes the time format as: a 1-to-2-digit hour, a colon and
  an exactly-2-digit minute, with the hour in [0,23] and the minute in [0,59]; the
  result is the zero-padded \<^verbatim>\<open>HH:MM\<close> form, and every other input is rejected.
\<close>

fun spec_timeParts :: "string \<Rightarrow> (string \<times> string) option" where
  "spec_timeParts [h1, c, m1, m2] =
     (if isDigit h1 \<and> c = CHR '':'' \<and> isDigit m1 \<and> isDigit m2
      then Some ([h1], [m1, m2]) else None)"
| "spec_timeParts [h1, h2, c, m1, m2] =
     (if isDigit h1 \<and> isDigit h2 \<and> c = CHR '':'' \<and> isDigit m1 \<and> isDigit m2
      then Some ([h1, h2], [m1, m2]) else None)"
| "spec_timeParts _ = None"

definition spec_zeroPad :: "string \<Rightarrow> string" where
  "spec_zeroPad h = (if length h < 2 then CHR ''0'' # h else h)"

definition spec_normalizeTime :: "string \<Rightarrow> string option" where
  "spec_normalizeTime s =
     (case spec_timeParts s of
        None \<Rightarrow> None
      | Some (h, m) \<Rightarrow>
          if 0 \<le> numberOfDigits h \<and> numberOfDigits h \<le> 23 \<and>
             0 \<le> numberOfDigits m \<and> numberOfDigits m \<le> 59
          then Some (spec_zeroPad h @ '':'' @ m)
          else None)"

section \<open>Auxiliary notions for the proofs\<close>

text \<open>A string without the run of non-slug characters at its start and at its end.\<close>

definition slugCore :: "string \<Rightarrow> string" where
  "slugCore s = dropEnd nonSlug (dropWhile nonSlug s)"

text \<open>A document used in the examples: the sample event of the details page.\<close>

definition sampleEvent :: event where
  "sampleEvent =
     \<lparr>title = ''Cloud Next 2027'', slug = None, description = ''A cloud conference'',
      overview = ''Talks and workshops'', imageUrl = ''/images/event1.png'',
      venue = ''Moscone Center'', location = ''San Francisco'', date = ''2025-04-10'',
      time = ''9:05'', mode = ''offline'', audience = ''Developers'',
      agenda = [''Keynote''], organizer = ''Google'', tags = [''cloud''],
      createdAt = None, updatedAt = None\<rparr>"

text \<open>The modified paths of a new document on which every schema path has been set.\<close>

definition allPaths :: "string list" where
  "allPaths =
     [''title'', ''description'', ''overview'', ''image'', ''venue'', ''location'', ''date'',
      ''time'', ''mode'', ''audience'', ''agenda'', ''organizer'', ''tags'']"

definition sampleToISO :: "string \<rightharpoonup> string" where
  "sampleToISO = [''2025-04-10'' \<mapsto> ''2025-04-10T00:00:00.000Z'']"

section \<open>Lemmas on the string primitives\<close>

lemma dropWhile_weaker:
  "(\<And>x. P x \<Longrightarrow> Q x) \<Longrightarrow> dropWhile Q (dropWhile P xs) = dropWhile Q xs"
  by (induction xs) auto

lemma dropEnd_weaker:
  "(\<And>x. P x \<Longrightarrow> Q x) \<Longrightarrow> dropEnd Q (dropEnd P xs) = dropEnd Q xs"
  by (simp add: dropEnd_def dropWhile_weaker)

lemma dropEnd_Cons:
  "dropEnd P (x # xs) = (if list_all P (x # xs) then [] else x # dropEnd P xs)"
  by (auto simp: dropEnd_def dropWhile_append list_all_iff)

lemma dropEnd_all: "list_all P xs \<Longrightarrow> dropEnd P xs = []"
  by (simp add: dropEnd_def list_all_iff)

lemma dropWhile_dropEnd:
  "(\<And>x. P x \<Longrightarrow> Q x) \<Longrightarrow> dropWhile Q (dropEnd P xs) = dropEnd P (dropWhile Q xs)"
proof (induction xs)
  case Nil
  then show ?case by (simp add: dropEnd_def)
next
  case (Cons x xs)
  show ?case
  proof (cases "Q x")
    case True
    then show ?thesis using Cons by (auto simp: dropEnd_Cons dropEnd_all list_all_iff dest: set_dropWhileD)
  next
    case False
    then have "\<not> P x" using Cons.prems by blast
    then show ?thesis using False by (simp add: dropEnd_Cons)
  qed
qed

lemma trim_alt: "trim s = dropEnd isWhiteSpace (dropWhile isWhiteSpace s)"
  by (simp add: trim_def trimStart_def trimEnd_def dropEnd_def)

lemma dropEnd_append_all: "list_all P w \<Longrightarrow> dropEnd P (xs @ w) = dropEnd P xs"
  by (simp add: dropEnd_def dropWhile_append list_all_iff)

lemma dropWhile_append_all: "list_all P w \<Longrightarrow> dropWhile P (w @ xs) = dropWhile P xs"
  by (simp add: dropWhile_append list_all_iff)

lemma trim_padding:
  assumes "list_all isWhiteSpace w1" "list_all isWhiteSpace w2"
  shows "trim (w1 @ t @ w2) = trim t"
proof -
  have "trim (w1 @ t @ w2) = dropEnd isWhiteSpace (dropWhile isWhiteSpace (t @ w2))"
    using assms(1) by (simp add: trim_alt dropWhile_append_all)
  also have "\<dots> = dropWhile isWhiteSpace (dropEnd isWhiteSpace (t @ w2))"
    by (simp add: dropWhile_dropEnd)
  also have "\<dots> = dropWhile isWhiteSpace (dropEnd isWhiteSpace t)"
    using assms(2) by (simp add: dropEnd_append_all)
  also have "\<dots> = trim t"
    by (simp add: trim_alt dropWhile_dropEnd)
  finally show ?thesis .
qed

section \<open>Lemmas on slugify\<close>

text \<open>
  Replacing the runs commutes with reversal, and the hyphens stripped at the two
  ends are exactly the images of the non-slug runs at the two ends of the input.
  Hence \<open>slugify\<close> is: lowercase, cut the non-slug runs off both ends, replace the
  inner runs.
\<close>

lemma hyphen_nonSlug: "\<not> isSlugChar CHR ''-''"
  by (simp add: isSlugChar_def codeOf_def)

lemma isHyphen_simp [simp]: "isHyphen c \<longleftrightarrow> c = CHR ''-''"
  by (simp add: isHyphen_def)

lemma rep_takeWhile:
  "replaceNonSlugRuns cs = takeWhile isSlugChar cs @ replaceNonSlugRuns (dropWhile isSlugChar cs)"
  by (induction cs) auto

lemma rep_snoc_slug:
  "isSlugChar c \<Longrightarrow> replaceNonSlugRuns (xs @ [c]) = replaceNonSlugRuns xs @ [c]"
proof (induction xs rule: replaceNonSlugRuns.induct)
  case 1
  then show ?case by simp
next
  case (2 d ds)
  then show ?case by (simp add: dropWhile_append3)
qed

lemma dropWhile_last: "dropWhile P xs \<noteq> [] \<Longrightarrow> last (dropWhile P xs) = last xs"
  by (induction xs) (auto split: if_splits)

lemma rep_snoc_nonSlug:
  "\<not> isSlugChar c \<Longrightarrow> replaceNonSlugRuns (xs @ [c]) =
     (if xs \<noteq> [] \<and> \<not> isSlugChar (last xs) then replaceNonSlugRuns xs
      else replaceNonSlugRuns xs @ ''-'')"
proof (induction xs rule: replaceNonSlugRuns.induct)
  case 1
  then show ?case by simp
next
  case (2 d ds)
  show ?case
  proof (cases "isSlugChar d")
    case True
    then show ?thesis using 2 by auto
  next
    case False
    show ?thesis
    proof (cases "dropWhile nonSlug ds = []")
      case True
      then have all: "\<forall>x\<in>set ds. \<not> isSlugChar x" by (simp add: dropWhile_eq_Nil_conv)
      then have e: "dropWhile nonSlug (ds @ [c]) = []" using 2(3) by (simp add: dropWhile_append)
      have lhs: "replaceNonSlugRuns ((d # ds) @ [c]) = ''-''"
        using False e by simp
      have "replaceNonSlugRuns (d # ds) = CHR ''-'' # replaceNonSlugRuns (dropWhile nonSlug ds)"
        using False by simp
      then have rhs: "replaceNonSlugRuns (d # ds) = ''-''"
        unfolding True by simp
      have "\<not> isSlugChar (last (d # ds))" using all False by auto
      then show ?thesis using lhs rhs by simp
    next
      case nonempty: False
      then have ex: "\<not> (\<forall>x\<in>set ds. \<not> isSlugChar x)" by (simp add: dropWhile_eq_Nil_conv)
      then have app: "dropWhile nonSlug (ds @ [c]) = dropWhile nonSlug ds @ [c]"
        by (auto simp: dropWhile_append)
      have l: "last (dropWhile nonSlug ds) = last ds" using nonempty by (rule dropWhile_last)
      have dsne: "ds \<noteq> []" using nonempty by auto
      show ?thesis using False 2(2)[OF False 2(3)] app l nonempty dsne by simp
    qed
  qed
qed

lemma rep_rev: "replaceNonSlugRuns (rev xs) = rev (replaceNonSlugRuns xs)"
proof (induction xs)
  case Nil
  then show ?case by simp
next
  case (Cons c xs)
  show ?case
  proof (cases "isSlugChar c")
    case True
    then show ?thesis using Cons by (simp add: rep_snoc_slug)
  next
    case False
    have step: "replaceNonSlugRuns (rev (c # xs)) =
        (if rev xs \<noteq> [] \<and> \<not> isSlugChar (last (rev xs)) then rev (replaceNonSlugRuns xs)
         else rev (replaceNonSlugRuns xs) @ ''-'')"
      using rep_snoc_nonSlug[OF False, of "rev xs"] Cons.IH by simp
    show ?thesis
    proof (cases xs)
      case Nil
      then show ?thesis using False by simp
    next
      case (Cons d ds)
      show ?thesis
      proof (cases "isSlugChar d")
        case True
        then show ?thesis using step False Cons by simp
      next
        case nd: False
        have "replaceNonSlugRuns (c # xs) = replaceNonSlugRuns xs"
          using False nd Cons by simp
        then show ?thesis using step nd Cons by simp
      qed
    qed
  qed
qed

lemma rep_lead:
  "dropWhile isHyphen (replaceNonSlugRuns xs) = replaceNonSlugRuns (dropWhile nonSlug xs)"
proof (induction xs rule: replaceNonSlugRuns.induct)
  case 1
  then show ?case by simp
next
  case (2 c cs)
  show ?case
  proof (cases "isSlugChar c")
    case True
    then have "c \<noteq> CHR ''-''" using hyphen_nonSlug by auto
    then show ?thesis using True by simp
  next
    case False
    have "dropWhile nonSlug (dropWhile nonSlug cs) = dropWhile nonSlug cs"
      by (simp add: dropWhile_weaker)
    then show ?thesis using False 2(2)[OF False] by simp
  qed
qed

lemma strip_alt: "stripEdgeHyphens s = dropEnd isHyphen (dropWhile isHyphen s)"
  by (simp add: stripEdgeHyphens_def dropEnd_def)

lemma strip_rep: "stripEdgeHyphens (replaceNonSlugRuns xs) = replaceNonSlugRuns (slugCore xs)"
proof -
  have "stripEdgeHyphens (replaceNonSlugRuns xs)
      = rev (dropWhile isHyphen (rev (replaceNonSlugRuns (dropWhile nonSlug xs))))"
    by (simp add: strip_alt dropEnd_def rep_lead)
  also have "\<dots> = rev (dropWhile isHyphen (replaceNonSlugRuns (rev (dropWhile nonSlug xs))))"
    by (simp add: rep_rev)
  also have "\<dots> = rev (replaceNonSlugRuns (dropWhile nonSlug (rev (dropWhile nonSlug xs))))"
    by (simp add: rep_lead)
  also have "\<dots> = replaceNonSlugRuns (slugCore xs)"
    by (simp add: rep_rev[symmetric] slugCore_def dropEnd_def)
  finally show ?thesis .
qed

lemma ws_nonSlug: "isWhiteSpace c \<Longrightarrow> \<not> isSlugChar c"
  by (auto simp: isWhiteSpace_def isSlugChar_def)

lemma slugCore_trim: "slugCore (trim s) = slugCore s"
proof -
  have "slugCore (trim s) = dropEnd nonSlug (dropEnd isWhiteSpace (dropWhile nonSlug (dropWhile isWhiteSpace s)))"
    by (simp add: slugCore_def trim_alt dropWhile_dropEnd ws_nonSlug)
  then show ?thesis
    by (simp add: slugCore_def dropEnd_weaker dropWhile_weaker ws_nonSlug)
qed

lemma slugify_core: "slugify v = replaceNonSlugRuns (slugCore (toLowerCase v))"
  by (simp add: slugify_def strip_rep slugCore_trim)

lemma rep_chars: "c \<in> set (replaceNonSlugRuns xs) \<Longrightarrow> isSlugChar c \<or> c = CHR ''-''"
  by (induction xs rule: replaceNonSlugRuns.induct) (auto split: if_splits)

lemma toLowerChar_fixed: "isSlugChar c \<or> c = CHR ''-'' \<Longrightarrow> toLowerChar c = c"
  by (auto simp: toLowerChar_def isUpper_def isSlugChar_def codeOf_def)

lemma toLowerCase_rep: "toLowerCase (replaceNonSlugRuns xs) = replaceNonSlugRuns xs"
  unfolding toLowerCase_def
  by (rule map_idI) (auto dest: rep_chars simp: toLowerChar_fixed)

lemma rep_head: "xs = [] \<or> isSlugChar (hd xs) \<Longrightarrow> dropWhile nonSlug (replaceNonSlugRuns xs) = replaceNonSlugRuns xs"
  by (cases xs) auto

lemma rep_idem: "replaceNonSlugRuns (replaceNonSlugRuns xs) = replaceNonSlugRuns xs"
proof (induction xs rule: replaceNonSlugRuns.induct)
  case 1
  then show ?case by simp
next
  case (2 c cs)
  show ?case
  proof (cases "isSlugChar c")
    case True
    then show ?thesis using 2 by simp
  next
    case False
    have "dropWhile nonSlug cs = [] \<or> isSlugChar (hd (dropWhile nonSlug cs))"
      using hd_dropWhile[of nonSlug cs] by auto
    then have "dropWhile nonSlug (replaceNonSlugRuns (dropWhile nonSlug cs)) = replaceNonSlugRuns (dropWhile nonSlug cs)"
      by (rule rep_head)
    then show ?thesis using False 2(2)[OF False] by (simp add: hyphen_nonSlug)
  qed
qed

lemma slugCore_idem: "slugCore (slugCore s) = slugCore s"
  by (simp add: slugCore_def dropWhile_dropEnd dropWhile_weaker dropEnd_weaker)

lemma slugCore_rep: "slugCore (replaceNonSlugRuns xs) = replaceNonSlugRuns (slugCore xs)"
proof -
  have eq: "\<And>ys. (\<forall>c\<in>set ys. isSlugChar c \<or> c = CHR ''-'') \<Longrightarrow> dropWhile nonSlug ys = dropWhile isHyphen ys"
    by (rule dropWhile_cong) (auto simp: hyphen_nonSlug)
  let ?r = "replaceNonSlugRuns xs"
  have a: "dropWhile nonSlug ?r = dropWhile isHyphen ?r"
    by (rule eq) (auto dest: rep_chars)
  have "\<forall>c\<in>set (rev (dropWhile isHyphen ?r)). isSlugChar c \<or> c = CHR ''-''"
    by (auto dest: set_dropWhileD rep_chars)
  then have b: "dropWhile nonSlug (rev (dropWhile isHyphen ?r)) = dropWhile isHyphen (rev (dropWhile isHyphen ?r))"
    by (rule eq)
  have "slugCore ?r = stripEdgeHyphens ?r"
    by (simp add: slugCore_def strip_alt dropEnd_def a b)
  then show ?thesis by (simp add: strip_rep)
qed

lemma spec_replaceRuns_eq: "spec_replaceRuns s = replaceNonSlugRuns s"
proof (induction "isSlugChar" s rule: maximalRuns.induct)
  case 1
  then show ?case by (simp add: spec_replaceRuns_def)
next
  case (2 c cs)
  show ?case
  proof (cases "isSlugChar c")
    case True
    then have ih: "spec_replaceRuns (dropWhile isSlugChar cs) = replaceNonSlugRuns (dropWhile isSlugChar cs)"
      using 2 by simp
    have "spec_replaceRuns (c # cs) = c # takeWhile isSlugChar cs @ spec_replaceRuns (dropWhile isSlugChar cs)"
      using True by (simp add: spec_replaceRuns_def spec_replaceRun_def)
    then show ?thesis using True ih rep_takeWhile[of cs] by simp
  next
    case False
    then have ih: "spec_replaceRuns (dropWhile nonSlug cs) = replaceNonSlugRuns (dropWhile nonSlug cs)"
      using 2 by simp
    have "spec_replaceRuns (c # cs) = CHR ''-'' # spec_replaceRuns (dropWhile nonSlug cs)"
      using False by (simp add: spec_replaceRuns_def spec_replaceRun_def)
    then show ?thesis using False ih by simp
  qed
qed

lemma spec_strip_eq: "spec_stripLeadingHyphens s = dropWhile isHyphen s"
  by (induction s) auto

section \<open>Lemmas on normalizeTime\<close>

lemma colon_not_digit: "\<not> isDigit CHR '':''"
  by (simp add: isDigit_def codeOf_def)

lemma execTimeRegex_eq: "execTimeRegex s = spec_timeParts s"
proof (cases s rule: spec_timeParts.cases)
  case (1 h1 c m1 m2)
  then show ?thesis
    by (auto simp: execTimeRegex_def colon_not_digit)
next
  case (2 h1 h2 c m1 m2)
  then show ?thesis by (auto simp: execTimeRegex_def colon_not_digit)
qed (auto simp: execTimeRegex_def colon_not_digit)

lemma digitValue_range: "isDigit c \<Longrightarrow> 0 \<le> digitValue c \<and> digitValue c \<le> 9"
  by (auto simp: isDigit_def digitValue_def)

lemma digitChar_digitValue: "isDigit c \<Longrightarrow> digitChar (nat (digitValue c)) = c"
  by (simp add: isDigit_def digitValue_def digitChar_def codeOf_def nat_diff_distrib)

lemma digit_zero: "isDigit c \<Longrightarrow> digitValue c = 0 \<Longrightarrow> c = CHR ''0''"
proof -
  assume "isDigit c" "digitValue c = 0"
  then have "(of_char c :: nat) = of_char CHR ''0''" by (simp add: digitValue_def codeOf_def)
  then show ?thesis by (rule of_char_eqI)
qed

lemma digitValue_nat: "isDigit c \<Longrightarrow> nat (digitValue c) \<le> 9"
  by (auto simp: isDigit_def digitValue_def)

lemma natToString_small: "n < 10 \<Longrightarrow> natToString n = [digitChar n]"
  by (simp add: natToString.simps[of n])

lemma natToString_two:
  "10 \<le> n \<Longrightarrow> n < 100 \<Longrightarrow> natToString n = [digitChar (n div 10), digitChar (n mod 10)]"
  by (simp add: natToString.simps[of n] natToString_small)

lemma pad_one: "isDigit c \<Longrightarrow> padStart2 (natToString (nat (numberOfDigits [c]))) = [CHR ''0'', c]"
proof -
  assume d: "isDigit c"
  have "nat (digitValue c) < 10" using digitValue_nat[OF d] by simp
  then have "natToString (nat (digitValue c)) = [c]"
    using digitChar_digitValue[OF d] by (simp add: natToString_small)
  then show ?thesis by (simp add: numberOfDigits_def padStart2_def)
qed

lemma pad_two:
  assumes "isDigit a" "isDigit b"
  shows "padStart2 (natToString (nat (numberOfDigits [a, b]))) = [a, b]"
proof -
  let ?x = "nat (digitValue a)" and ?y = "nat (digitValue b)"
  have ra: "?x \<le> 9" using digitValue_nat[OF assms(1)] .
  have rb: "?y \<le> 9" using digitValue_nat[OF assms(2)] .
  have v: "nat (numberOfDigits [a, b]) = 10 * ?x + ?y"
    using digitValue_range[OF assms(1)] digitValue_range[OF assms(2)]
    by (simp add: numberOfDigits_def nat_add_distrib nat_mult_distrib)
  show ?thesis
  proof (cases "?x = 0")
    case True
    then have "a = CHR ''0''" using digit_zero[OF assms(1)] digitValue_range[OF assms(1)] by simp
    moreover have "natToString (10 * ?x + ?y) = [b]"
      using True rb digitChar_digitValue[OF assms(2)] by (simp add: natToString_small)
    ultimately show ?thesis using v by (simp add: padStart2_def)
  next
    case False
    then have ge: "10 \<le> 10 * ?x + ?y" by simp
    have lt: "10 * ?x + ?y < 100" using ra rb by simp
    have d: "(10 * ?x + ?y) div 10 = ?x" "(10 * ?x + ?y) mod 10 = ?y" using rb by auto
    have "natToString (10 * ?x + ?y) = [a, b]"
      using natToString_two[OF ge lt] d digitChar_digitValue[OF assms(1)] digitChar_digitValue[OF assms(2)]
      by simp
    then show ?thesis using v by (simp add: padStart2_def)
  qed
qed

lemma normalizeTime_spec: "normalizeTime raw = spec_normalizeTime (trim raw)"
proof (cases "trim raw" rule: spec_timeParts.cases)
  case (1 h1 c m1 m2)
  then show ?thesis
    by (auto simp: normalizeTime_def spec_normalizeTime_def execTimeRegex_eq Let_def pad_one pad_two spec_zeroPad_def)
next
  case (2 h1 h2 c m1 m2)
  then show ?thesis
    by (auto simp: normalizeTime_def spec_normalizeTime_def execTimeRegex_eq Let_def pad_one pad_two spec_zeroPad_def)
qed (simp_all add: normalizeTime_def spec_normalizeTime_def execTimeRegex_eq)

section \<open>Lemmas on the pre-save hook\<close>

lemma dateBlock_cases:
  "dateBlock toISO mp this = (this', r) \<Longrightarrow>
     (\<not> isModified mp ''date'' \<and> this' = this \<and> r = None) \<or>
     (isModified mp ''date'' \<and> toISO (date this) = None \<and> this' = this \<and> r = Some InvalidDateFormat) \<or>
     (\<exists>v. isModified mp ''date'' \<and> toISO (date this) = Some v \<and> this' = this\<lparr>date := v\<rparr> \<and> r = None)"
  by (auto simp: dateBlock_def split: if_splits option.splits)

lemma timeBlock_cases:
  "timeBlock mp this = (this', r) \<Longrightarrow>
     (\<not> isModified mp ''time'' \<and> this' = this \<and> r = None) \<or>
     (isModified mp ''time'' \<and> this' = this \<and> r = Some InvalidTimeFormat) \<or>
     (\<exists>v. isModified mp ''time'' \<and> normalizeTime (time this) = Some v \<and> this' = this\<lparr>time := v\<rparr> \<and> r = None)"
  by (auto simp: timeBlock_def Let_def split: if_splits option.splits)

lemma eventPreSave_slug:
  assumes "eventPreSave toISO mp this = (this', r)"
  shows "slug this' = slug (slugBlock mp this)"
proof -
  obtain d rd where d: "dateBlock toISO mp (slugBlock mp this) = (d, rd)" by fastforce
  have sd: "slug d = slug (slugBlock mp this)" using dateBlock_cases[OF d] by auto
  show ?thesis
  proof (cases rd)
    case (Some err)
    then have "this' = d" using assms d by (simp add: eventPreSave_def)
    then show ?thesis using sd by simp
  next
    case None
    then have "timeBlock mp d = (this', r)" using assms d by (simp add: eventPreSave_def)
    from timeBlock_cases[OF this] have "slug this' = slug d" by auto
    then show ?thesis using sd by simp
  qed
qed

text \<open>
  Whenever the hook regenerates the slug of a title that slugifies to the empty
  string, the document leaves the hook with the empty slug, and the hook raises no
  validation failure.
\<close>

lemma eventPreSave_empty_slug:
  assumes "slugify (title this) = []"
    and "isModified mp ''title'' \<or> isFalsy (slug this)"
    and "eventPreSave toISO mp this = (this', r)"
  shows "slug this' = Some [] \<and> r \<noteq> Some (ValidationFailure ps)"
proof -
  have "slug this' = Some []"
    using eventPreSave_slug[OF assms(3)] assms(1,2) by (simp add: slugBlock_def)
  moreover have "r \<noteq> Some (ValidationFailure ps)"
    using assms(3)
    by (auto simp: eventPreSave_def dateBlock_def timeBlock_def Let_def
             split: if_splits option.splits prod.splits)
  ultimately show ?thesis by simp
qed

section \<open>Lemmas on the connection manager\<close>

text \<open>Every step keeps \<open>cacheInv\<close> and the number of calls.\<close>

lemma list_all_update: "list_all P xs \<Longrightarrow> P v \<Longrightarrow> list_all P (xs[i := v])"
  using set_update_subset_insert[of xs i v] by (auto simp: list_all_iff)

lemma list_all_mono: "list_all P xs \<Longrightarrow> (\<And>x. P x \<Longrightarrow> Q x) \<Longrightarrow> list_all Q xs"
  by (auto simp: list_all_iff)

lemma cacheInv_initial: "cacheInv (initialProcess n)"
  by (simp add: cacheInv_def initialProcess_def callOk_def list_all_iff)

lemma callOk_first_attempt: "callOk [] x \<Longrightarrow> callOk [Pending] x"
  by (cases x) (auto simp: callOk_def)

lemma callOk_settled: "callOk [Pending] x \<Longrightarrow> callOk [st] x"
  by (cases x) (auto simp: callOk_def)

lemma single_promise: "length ps \<le> 1 \<Longrightarrow> p < length ps \<Longrightarrow> p = 0 \<and> ps = [ps ! 0]"
  by (cases ps) auto

lemma enter_preserves:
  assumes "cacheInv s" "connectToDatabase_enter c s = Some s'"
  shows "cacheInv s' \<and> length (calls s') = length (calls s)"
proof (cases "conn (cached s)")
  case (Some h)
  then show ?thesis using assms
    by (auto simp: connectToDatabase_enter_def cacheInv_def callOk_def split: if_splits intro!: list_all_update)
next
  case None
  show ?thesis
  proof (cases "promise (cached s)")
    case noP: None
    then have e: "promises s = []" using assms(1) by (auto simp: cacheInv_def split: if_splits)
    have "list_all (callOk [Pending]) (calls s)"
      using assms(1) e by (auto simp: cacheInv_def intro: list_all_mono callOk_first_attempt)
    then show ?thesis using assms None noP e
      by (auto simp: connectToDatabase_enter_def cacheInv_def callOk_def Let_def split: if_splits intro!: list_all_update)
  next
    case (Some p)
    then have "promises s \<noteq> [] \<and> p = 0" using assms(1) by (auto simp: cacheInv_def split: if_splits)
    then show ?thesis using assms None Some
      by (auto simp: connectToDatabase_enter_def cacheInv_def callOk_def split: if_splits intro!: list_all_update)
  qed
qed

lemma settle_preserves:
  assumes "cacheInv s" "settle p outcome s = Some s'"
  shows "cacheInv s' \<and> length (calls s') = length (calls s)"
proof -
  from assms(2) have p: "p < length (promises s)" "promises s ! p = Pending"
    and s': "s' = s\<lparr>promises := (promises s)[p := (case outcome of Some h \<Rightarrow> Fulfilled h | None \<Rightarrow> Rejected)]\<rparr>"
    by (auto simp: settle_def split: if_splits)
  have len: "length (promises s) \<le> 1" using assms(1) by (simp add: cacheInv_def)
  from single_promise[OF len p(1)] p(2) have ps: "p = 0" "promises s = [Pending]" by auto
  have "list_all (callOk [case outcome of Some h \<Rightarrow> Fulfilled h | None \<Rightarrow> Rejected]) (calls s)"
    using assms(1) ps by (auto simp: cacheInv_def intro: list_all_mono callOk_settled)
  moreover have "conn (cached s) = None"
    using assms(1) ps by (auto simp: cacheInv_def split: option.splits)
  ultimately show ?thesis using assms(1) ps s' by (simp add: cacheInv_def)
qed

lemma resume_preserves:
  assumes "cacheInv s" "connectToDatabase_resume c s = Some s'"
  shows "cacheInv s' \<and> length (calls s') = length (calls s)"
proof -
  from assms(2) obtain p where c: "c < length (calls s)" "calls s ! c = Awaiting p" "p < length (promises s)"
    by (auto simp: connectToDatabase_resume_def split: if_splits callState.splits)
  have len: "length (promises s) \<le> 1" using assms(1) by (simp add: cacheInv_def)
  from single_promise[OF len c(3)] have ps: "p = 0" "promises s = [promises s ! 0]" by auto
  show ?thesis
  proof (cases "promises s ! 0")
    case Pending
    then show ?thesis using assms(2) c ps by (simp add: connectToDatabase_resume_def)
  next
    case (Fulfilled h)
    then have full: "promises s = [Fulfilled h]" using ps by simp
    then have "s' = s\<lparr>cached := (cached s)\<lparr>conn := Some h\<rparr>, calls := (calls s)[c := Returned h]\<rparr>"
      using assms(2) c ps by (simp add: connectToDatabase_resume_def)
    then show ?thesis using assms(1) full
      by (auto simp: cacheInv_def callOk_def intro!: list_all_update)
  next
    case Rejected
    then have rej: "promises s = [Rejected]" using ps by simp
    then have "s' = s\<lparr>calls := (calls s)[c := Threw]\<rparr>"
      using assms(2) c ps by (simp add: connectToDatabase_resume_def)
    then show ?thesis using assms(1) rej
      by (auto simp: cacheInv_def callOk_def split: option.splits intro!: list_all_update)
  qed
qed

lemma step_preserves:
  "cacheInv s \<Longrightarrow> step a s = Some s' \<Longrightarrow> cacheInv s' \<and> length (calls s') = length (calls s)"
  by (cases a) (auto dest: enter_preserves settle_preserves resume_preserves)

lemma run_preserves:
  "cacheInv s \<Longrightarrow> run as s = Some s' \<Longrightarrow> cacheInv s' \<and> length (calls s') = length (calls s)"
proof (induction as arbitrary: s)
  case Nil
  then show ?case by simp
next
  case (Cons a as)
  then obtain s1 where s1: "step a s = Some s1" "run as s1 = Some s'"
    by (auto split: option.splits)
  from step_preserves[OF Cons.prems(1) s1(1)] Cons.IH[OF _ s1(2)] show ?case by simp
qed

lemma reachable_inv:
  "run as (initialProcess n) = Some s \<Longrightarrow> cacheInv s \<and> length (calls s) = n"
  using run_preserves[OF cacheInv_initial, of as n s] by (simp add: initialProcess_def)

lemma inv_call: "cacheInv s \<Longrightarrow> c < length (calls s) \<Longrightarrow> callOk (promises s) (calls s ! c)"
  by (simp add: cacheInv_def list_all_length)

lemma outstanding_le: "outstanding s \<le> attempts s"
  by (simp add: outstanding_def attempts_def)

lemma rejected_state:
  assumes "cacheInv s" "p < length (promises s)" "promises s ! p = Rejected"
  shows "p = 0 \<and> promises s = [Rejected] \<and> conn (cached s) = None \<and> promise (cached s) = Some 0"
proof -
  have len: "length (promises s) \<le> 1" using assms(1) by (simp add: cacheInv_def)
  from single_promise[OF len assms(2)] assms(3) have ps: "p = 0" "promises s = [Rejected]" by auto
  then show ?thesis using assms(1) by (auto simp: cacheInv_def split: option.splits)
qed

text \<open>
  What a call does once the connect attempt has rejected, in any reachable state:
  it awaits the rejected promise, and fails when resumed; the number of attempts
  and the cache slot stay as they are.
\<close>

lemma rejected_promise_reawaited:
  assumes "run as (initialProcess n) = Some s"
    and "p < length (promises s)" and "promises s ! p = Rejected"
    and "c < n" and "calls s ! c = NotCalled"
  shows "\<exists>s1 s2. step (Call c) s = Some s1 \<and> calls s1 ! c = Awaiting p \<and> attempts s1 = attempts s \<and>
           step (Resume c) s1 = Some s2 \<and> calls s2 ! c = Threw \<and> attempts s2 = attempts s \<and>
           promise (cached s2) = Some p \<and> promises s2 ! p = Rejected"
proof -
  from reachable_inv[OF assms(1)] have inv: "cacheInv s" and n: "length (calls s) = n" by auto
  from rejected_state[OF inv assms(2,3)]
  have st: "p = 0" "promises s = [Rejected]" "conn (cached s) = None" "promise (cached s) = Some 0" by auto
  let ?s1 = "s\<lparr>calls := (calls s)[c := Awaiting 0]\<rparr>"
  let ?s2 = "?s1\<lparr>calls := (calls ?s1)[c := Threw]\<rparr>"
  have 1: "step (Call c) s = Some ?s1"
    using st assms(4,5) n by (simp add: connectToDatabase_enter_def)
  have 2: "step (Resume c) ?s1 = Some ?s2"
    using st assms(4) n by (simp add: connectToDatabase_resume_def)
  show ?thesis using 1 2 st assms(4) n by (simp add: attempts_def)
qed

section \<open>The connection manager's claims\<close>

text \<open>
  C1. Starting from a process with no cached handle and no connect attempt in
  flight, however the calls of the callers, the settling of the attempt and the
  resumptions interleave: at most one connect attempt is outstanding (indeed at
  most one is ever started), exactly one has been started as soon as some caller
  has called, any two callers that have returned hold the same handle, and a
  caller awaiting the attempt can be resumed once it is fulfilled and then returns
  the handle it was fulfilled with.
\<close>

theorem connectToDatabase_single_attempt:
  assumes "run as (initialProcess n) = Some s"
  shows "outstanding s \<le> 1 \<and> attempts s \<le> 1 \<and>
     (\<forall>c<n. calls s ! c \<noteq> NotCalled \<longrightarrow> attempts s = 1) \<and>
     (\<forall>c1<n. \<forall>c2<n. \<forall>h1 h2. calls s ! c1 = Returned h1 \<and> calls s ! c2 = Returned h2 \<longrightarrow> h1 = h2) \<and>
     (\<forall>c<n. \<forall>p h. calls s ! c = Awaiting p \<and> promises s ! p = Fulfilled h \<longrightarrow>
        (\<exists>s'. step (Resume c) s = Some s' \<and> calls s' ! c = Returned h))"
proof -
  from reachable_inv[OF assms] have inv: "cacheInv s" and n: "length (calls s) = n" by auto
  have a: "attempts s \<le> 1" using inv by (simp add: cacheInv_def attempts_def)
  then have o: "outstanding s \<le> 1" using outstanding_le[of s] by simp
  have called: "attempts s = 1" if "c < n" "calls s ! c \<noteq> NotCalled" for c
  proof -
    have "callOk (promises s) (calls s ! c)" using inv_call[OF inv, of c] that n by simp
    then have "promises s \<noteq> []" using that(2) by (cases "calls s ! c") (auto simp: callOk_def)
    then show ?thesis using a by (cases "promises s") (auto simp: attempts_def)
  qed
  have same: "h1 = h2" if "c1 < n" "c2 < n" "calls s ! c1 = Returned h1" "calls s ! c2 = Returned h2" for c1 c2 h1 h2
  proof -
    have "callOk (promises s) (Returned h1)"
      using inv_call[OF inv, of c1] that n by simp
    moreover have "callOk (promises s) (Returned h2)"
      using inv_call[OF inv, of c2] that n by simp
    ultimately show ?thesis by (simp add: callOk_def)
  qed
  have resume: "\<exists>s'. step (Resume c) s = Some s' \<and> calls s' ! c = Returned h"
    if "c < n" "calls s ! c = Awaiting p" "promises s ! p = Fulfilled h" for c p h
  proof -
    have "callOk (promises s) (Awaiting p)" using inv_call[OF inv, of c] that n by simp
    then have "p = 0" "promises s \<noteq> []" by (simp_all add: callOk_def)
    then show ?thesis using that n by (simp add: connectToDatabase_resume_def)
  qed
  show ?thesis using a o called same resume by blast
qed

theorem connectToDatabase_single_attempt_witness:
  "run [Call 0, Call 1, Settle 0 (Some 7)] (initialProcess 2) =
     Some \<lparr>cached = \<lparr>conn = None, promise = Some 0\<rparr>, promises = [Fulfilled 7],
           calls = [Awaiting 0, Awaiting 0]\<rparr> \<and>
   run [Call 0, Call 1, Settle 0 (Some 7), Resume 0, Resume 1] (initialProcess 2) =
     Some \<lparr>cached = \<lparr>conn = Some 7, promise = Some 0\<rparr>, promises = [Fulfilled 7],
           calls = [Returned 7, Returned 7]\<rparr> \<and>
   attempts \<lparr>cached = \<lparr>conn = Some 7, promise = Some 0\<rparr>, promises = [Fulfilled 7],
           calls = [Returned 7, Returned 7]\<rparr> = 1 \<and>
   (\<exists>s'. step (Resume 1) \<lparr>cached = \<lparr>conn = None, promise = Some 0\<rparr>, promises = [Fulfilled 7],
           calls = [Awaiting 0, Awaiting 0]\<rparr> = Some s' \<and> calls s' ! 1 = Returned 7)"
proof -
  let ?m = "\<lparr>cached = \<lparr>conn = None, promise = Some 0\<rparr>, promises = [Fulfilled 7],
           calls = [Awaiting 0, Awaiting 0]\<rparr>"
  let ?s = "\<lparr>cached = \<lparr>conn = Some 7, promise = Some 0\<rparr>, promises = [Fulfilled 7],
           calls = [Returned 7, Returned 7]\<rparr>"
  have q: "run [Call 0, Call 1, Settle 0 (Some 7)] (initialProcess 2) = Some ?m"
    by code_simp
  have r: "run [Call 0, Call 1, Settle 0 (Some 7), Resume 0, Resume 1] (initialProcess 2) = Some ?s"
    by code_simp
  note t = connectToDatabase_single_attempt[OF r]
  note u = connectToDatabase_single_attempt[OF q]
  have a: "attempts ?s = 1"
    using conjunct1[OF conjunct2[OF conjunct2[OF t]], rule_format, of 0] by simp
  have b: "\<exists>s'. step (Resume 1) ?m = Some s' \<and> calls s' ! 1 = Returned 7"
    using conjunct2[OF conjunct2[OF conjunct2[OF conjunct2[OF u]]], rule_format, of 1 0 7] by simp
  show ?thesis using q r a b by simp
qed

text \<open>
  C2. The claim: after a call has failed because the connect attempt rejected, a
  subsequent call starts a fresh connect attempt, and later callers are not left
  re-awaiting the rejected attempt. The code does otherwise. On the run below,
  from the empty cache, caller 0 calls, its connect attempt rejects and caller 0
  fails; the rejected promise is still in \<^verbatim>\<open>cached.promise\<close>, so the call of caller
  1 takes neither the early return nor the branch that creates a promise: it starts
  no connect attempt (one attempt in all, none outstanding), awaits the rejected
  promise and fails as well.
\<close>

theorem connectToDatabase_no_retry_after_rejection:
  "run [Call 0, Settle 0 None, Resume 0, Call 1] (initialProcess 2) =
     Some \<lparr>cached = \<lparr>conn = None, promise = Some 0\<rparr>, promises = [Rejected],
           calls = [Threw, Awaiting 0]\<rparr> \<and>
   attempts \<lparr>cached = \<lparr>conn = None, promise = Some 0\<rparr>, promises = [Rejected],
           calls = [Threw, Awaiting 0]\<rparr> = 1 \<and>
   outstanding \<lparr>cached = \<lparr>conn = None, promise = Some 0\<rparr>, promises = [Rejected],
           calls = [Threw, Awaiting 0]\<rparr> = 0 \<and>
   run [Call 0, Settle 0 None, Resume 0, Call 1, Resume 1] (initialProcess 2) =
     Some \<lparr>cached = \<lparr>conn = None, promise = Some 0\<rparr>, promises = [Rejected],
           calls = [Threw, Threw]\<rparr>"
  by code_simp

section \<open>The Event model's claims\<close>

text \<open>
  C3. The claim: saving an Event whose title slugifies to the empty string fails
  with a validation failure, and an empty slug is never stored. The code does
  otherwise. A new Event with the title \<^verbatim>\<open>!!!\<close> and every other path valid passes
  the schema validators (the title is not blank, and \<^verbatim>\<open>slug\<close> has no validator);
  the pre-save hook assigns \<open>slugify title\<close>, the empty string, without a check;
  the save succeeds and the collection then holds the Event with the empty slug.
\<close>

theorem eventSave_stores_empty_slug:
  "slugify ''!!!'' = [] \<and>
   eventValidate (sampleEvent\<lparr>title := ''!!!''\<rparr>) = [] \<and>
   eventSave sampleToISO 1700 \<lparr>events = [], bookings = []\<rparr> 1 allPaths
       (sampleEvent\<lparr>title := ''!!!''\<rparr>) =
     (\<lparr>events = [(1, sampleEvent\<lparr>title := ''!!!'', slug := Some [],
                     date := ''2025-04-10T00:00:00.000Z'', time := ''09:05'',
                     createdAt := Some 1700, updatedAt := Some 1700\<rparr>)],
       bookings = []\<rparr>,
      Inr (sampleEvent\<lparr>title := ''!!!'', slug := Some [],
                     date := ''2025-04-10T00:00:00.000Z'', time := ''09:05'',
                     createdAt := Some 1700, updatedAt := Some 1700\<rparr>))"
  by code_simp

text \<open>
  C5. For every string, \<open>slugify\<close> equals the specification's wording (lowercase,
  replace every maximal run of characters outside \<^verbatim>\<open>[a-z0-9]\<close> with one hyphen,
  strip the leading and trailing hyphens); and the two examples of the
  specification evaluate as stated.
\<close>

theorem slugify_refines_spec:
  "slugify s = spec_slugify s \<and>
   slugify ''Cloud Next 2027'' = ''cloud-next-2027'' \<and>
   slugify ''  A///B  '' = ''a-b''"
proof -
  have "spec_slugify s = stripEdgeHyphens (replaceNonSlugRuns (toLowerCase s))"
    by (simp add: spec_slugify_def spec_strip_eq spec_replaceRuns_eq stripEdgeHyphens_def dropEnd_def)
  also have "\<dots> = slugify s"
    by (simp add: strip_rep slugify_core)
  finally have 1: "slugify s = spec_slugify s" by simp
  have 2: "slugify ''Cloud Next 2027'' = ''cloud-next-2027''" by code_simp
  have 3: "slugify ''  A///B  '' = ''a-b''" by code_simp
  show ?thesis using 1 2 3 by simp
qed

theorem slugify_refines_spec_witness:
  "slugify ''Dev  Summit: 2026!'' = ''dev-summit-2026'' \<and>
   spec_slugify ''Dev  Summit: 2026!'' = ''dev-summit-2026''"
proof -
  have "slugify ''Dev  Summit: 2026!'' = ''dev-summit-2026''" by code_simp
  then show ?thesis
    using conjunct1[OF slugify_refines_spec[of "''Dev  Summit: 2026!''"]] by simp
qed

text \<open>
  C6, as stated, fails: the input \<^verbatim>\<open>" 09:05 "\<close> does not have the form of a
  1-to-2-digit hour, a colon and a 2-digit minute, yet it is accepted.
\<close>

theorem normalizeTime_padded_counterexample:
  "normalizeTime '' 09:05 '' = Some ''09:05'' \<and> spec_normalizeTime '' 09:05 '' = None"
  by code_simp

text \<open>
  C6, amended. \<open>normalizeTime\<close> returns a result exactly for the inputs that, once
  the surrounding white space is trimmed, consist of a 1-to-2-digit hour, a colon
  and an exactly-2-digit minute with the hour in [0,23] and the minute in [0,59],
  and the result is then the zero-padded \<^verbatim>\<open>HH:MM\<close> form; every other input is
  rejected. In particular \<^verbatim>\<open>9:5\<close> and \<^verbatim>\<open>24:00\<close> are rejected, and \<^verbatim>\<open>09:05\<close> and
  \<^verbatim>\<open>23:59\<close> are returned unchanged.
\<close>

theorem normalizeTime_accepts_trimmed:
  "normalizeTime raw = spec_normalizeTime (trim raw) \<and>
   normalizeTime ''9:5'' = None \<and>
   normalizeTime ''09:05'' = Some ''09:05'' \<and>
   normalizeTime ''23:59'' = Some ''23:59'' \<and>
   normalizeTime ''24:00'' = None"
proof -
  have 1: "normalizeTime raw = spec_normalizeTime (trim raw)" by (rule normalizeTime_spec)
  have 2: "normalizeTime ''9:5'' = None" by code_simp
  have 3: "normalizeTime ''09:05'' = Some ''09:05''" by code_simp
  have 4: "normalizeTime ''23:59'' = Some ''23:59''" by code_simp
  have 5: "normalizeTime ''24:00'' = None" by code_simp
  show ?thesis using 1 2 3 4 5 by simp
qed

theorem normalizeTime_accepts_trimmed_witness:
  "normalizeTime ''  7:30'' = Some ''07:30'' \<and> spec_normalizeTime (trim ''  7:30'') = Some ''07:30''"
proof -
  have "spec_normalizeTime (trim ''  7:30'') = Some ''07:30''" by code_simp
  then show ?thesis
    using conjunct1[OF normalizeTime_accepts_trimmed[of "''  7:30''"]] by simp
qed

text \<open>C7. \<open>slugify\<close> is idempotent: for every string \<open>t\<close>, \<open>slugify (slugify t) = slugify t\<close>.\<close>

theorem slugify_idempotent: "slugify (slugify t) = slugify t"
  by (simp add: slugify_core toLowerCase_rep slugCore_rep slugCore_idem rep_idem)

theorem slugify_idempotent_witness:
  "slugify (slugify ''  A///B  '') = ''a-b''"
proof -
  have "slugify ''  A///B  '' = ''a-b''" by code_simp
  then show ?thesis using slugify_idempotent[of "''  A///B  ''"] by simp
qed

text \<open>
  C8. The pre-save hook leaves the document as follows, whether or not it throws:
  the slug is \<open>slugify title\<close> if the title was modified or the slug is unset, and
  is unchanged otherwise; the date is unchanged unless the date was modified, and
  when the hook succeeds with the date modified it is the parsed date's ISO
  string; the time is unchanged unless the time was modified, and when the hook
  succeeds with the time modified it is the normalized time; no other field
  changes.
\<close>

theorem eventPreSave_frame:
  assumes "eventPreSave toISO mp this = (this', r)"
  shows "slug this' = (if isModified mp ''title'' \<or> isFalsy (slug this)
                       then Some (slugify (title this)) else slug this) \<and>
         (\<not> isModified mp ''date'' \<longrightarrow> date this' = date this) \<and>
         (\<not> isModified mp ''time'' \<longrightarrow> time this' = time this) \<and>
         (r = None \<and> isModified mp ''date'' \<longrightarrow> toISO (date this) = Some (date this')) \<and>
         (r = None \<and> isModified mp ''time'' \<longrightarrow> normalizeTime (time this) = Some (time this')) \<and>
         this' = this\<lparr>slug := slug this', date := date this', time := time this'\<rparr>"
proof -
  let ?s = "slugBlock mp this"
  obtain d rd where d: "dateBlock toISO mp ?s = (d, rd)" by fastforce
  have sl: "slug ?s = (if isModified mp ''title'' \<or> isFalsy (slug this)
                       then Some (slugify (title this)) else slug this)"
     and sd: "date ?s = date this" and st: "time ?s = time this"
     and sf: "?s = this\<lparr>slug := slug ?s\<rparr>"
    by (simp_all add: slugBlock_def)
  have dt: "time d = time ?s" "slug d = slug ?s" using dateBlock_cases[OF d] by auto
  show ?thesis
  proof (cases rd)
    case (Some err)
    then have "this' = d" "r = Some err" using assms d by (simp_all add: eventPreSave_def)
    moreover have "d = ?s" using dateBlock_cases[OF d] Some by auto
    ultimately show ?thesis using sl sd st by (simp add: slugBlock_def)
  next
    case None
    then have t: "timeBlock mp d = (this', r)" using assms d by (simp add: eventPreSave_def)
    from dateBlock_cases[OF d] None
    consider "\<not> isModified mp ''date''" "d = ?s"
      | v where "isModified mp ''date''" "toISO (date this) = Some v" "d = ?s\<lparr>date := v\<rparr>"
      using sd by auto
    then show ?thesis
    proof cases
      case 1
      from timeBlock_cases[OF t] show ?thesis
        using 1 sl sd st by (auto simp: slugBlock_def)
    next
      case 2
      from timeBlock_cases[OF t] show ?thesis
        using 2 sl sd st by (auto simp: slugBlock_def)
    qed
  qed
qed

theorem eventPreSave_frame_witness:
  "eventPreSave sampleToISO [''title'', ''date'', ''time''] sampleEvent =
     (sampleEvent\<lparr>slug := Some ''cloud-next-2027'', date := ''2025-04-10T00:00:00.000Z'',
                  time := ''09:05''\<rparr>, None) \<and>
   slug (sampleEvent\<lparr>slug := Some ''cloud-next-2027'', date := ''2025-04-10T00:00:00.000Z'',
                  time := ''09:05''\<rparr>) = Some (slugify (title sampleEvent)) \<and>
   eventPreSave sampleToISO [] (sampleEvent\<lparr>slug := Some ''kept''\<rparr>) =
     (sampleEvent\<lparr>slug := Some ''kept''\<rparr>, None) \<and>
   date (sampleEvent\<lparr>slug := Some ''kept''\<rparr>) = date sampleEvent"
proof -
  let ?e = "sampleEvent\<lparr>slug := Some ''cloud-next-2027'', date := ''2025-04-10T00:00:00.000Z'',
                  time := ''09:05''\<rparr>"
  let ?k = "sampleEvent\<lparr>slug := Some ''kept''\<rparr>"
  have h: "eventPreSave sampleToISO [''title'', ''date'', ''time''] sampleEvent = (?e, None)"
    by code_simp
  have m: "isModified [''title'', ''date'', ''time''] ''title''"
    by code_simp
  from eventPreSave_frame[OF h] m have 1: "slug ?e = Some (slugify (title sampleEvent))"
    by simp
  have k: "eventPreSave sampleToISO [] ?k = (?k, None)" by code_simp
  have n: "\<not> isModified [] ''date''" by code_simp
  from eventPreSave_frame[OF k] n have 2: "date ?k = date sampleEvent" by simp
  show ?thesis using h 1 k 2 by simp
qed

text \<open>
  C10. \<open>normalizeTime\<close> trims its input before matching: padding an input with
  white space on either side does not change the result. In particular
  \<^verbatim>\<open>" 09:05 "\<close> yields \<^verbatim>\<open>09:05\<close>, although the pattern alone rejects it.
\<close>

theorem normalizeTime_trims:
  "list_all isWhiteSpace w1 \<Longrightarrow> list_all isWhiteSpace w2 \<Longrightarrow>
     normalizeTime (w1 @ t @ w2) = normalizeTime t \<and>
     normalizeTime '' 09:05 '' = Some ''09:05'' \<and> execTimeRegex '' 09:05 '' = None"
proof -
  assume w: "list_all isWhiteSpace w1" "list_all isWhiteSpace w2"
  have 1: "normalizeTime (w1 @ t @ w2) = normalizeTime t"
    using w by (simp add: normalizeTime_def trim_padding)
  have 2: "normalizeTime '' 09:05 '' = Some ''09:05''" by code_simp
  have 3: "execTimeRegex '' 09:05 '' = None" by code_simp
  show ?thesis using 1 2 3 by simp
qed

theorem normalizeTime_trims_witness:
  "list_all isWhiteSpace [CHR 0x09, CHR '' ''] \<and> list_all isWhiteSpace '' '' \<and>
   normalizeTime ([CHR 0x09, CHR '' ''] @ ''9:05'' @ '' '') = Some ''09:05''"
proof -
  have w1: "list_all isWhiteSpace [CHR 0x09, CHR '' '']" by code_simp
  have w2: "list_all isWhiteSpace '' ''" by code_simp
  have v: "normalizeTime ''9:05'' = Some ''09:05''" by code_simp
  from normalizeTime_trims[OF w1 w2, of "''9:05''"] v w1 w2 show ?thesis by simp
qed

section \<open>The Booking model's claim\<close>

text \<open>
  C4. When no stored Event has the booking's \<^verbatim>\<open>eventId\<close>, the pre-save hook throws
  the dangling-reference error; the save is rejected and leaves the database as it
  was, whatever Bookings it already holds; and the error of a save that reaches
  the hook (the schema validators pass) is the dangling-reference error.
\<close>

theorem booking_dangling_reference:
  assumes "\<not> eventExists db (eventId this)"
  shows "bookingPreSave db this = Some DanglingReference \<and>
         (\<exists>err. bookingSave db oid this = (db, Inl err)) \<and>
         (bookingValidate this = [] \<longrightarrow> bookingSave db oid this = (db, Inl DanglingReference))"
  using assms by (auto simp: bookingPreSave_def bookingSave_def split: list.splits)

theorem booking_dangling_reference_witness:
  "\<not> eventExists \<lparr>events = [(1, sampleEvent)], bookings = [(4, \<lparr>eventId = 1, email = ''x@y.io''\<rparr>)]\<rparr> 2 \<and>
   bookingSave \<lparr>events = [(1, sampleEvent)], bookings = [(4, \<lparr>eventId = 1, email = ''x@y.io''\<rparr>)]\<rparr> 5
       \<lparr>eventId = 2, email = ''a@b.co''\<rparr> =
     (\<lparr>events = [(1, sampleEvent)], bookings = [(4, \<lparr>eventId = 1, email = ''x@y.io''\<rparr>)]\<rparr>,
      Inl DanglingReference)"
proof -
  let ?db = "\<lparr>events = [(1, sampleEvent)], bookings = [(4, \<lparr>eventId = 1, email = ''x@y.io''\<rparr>)]\<rparr>"
  let ?b = "\<lparr>eventId = 2, email = ''a@b.co''\<rparr>"
  have h: "\<not> eventExists ?db (eventId ?b)" by code_simp
  have v: "bookingValidate ?b = []" by code_simp
  from booking_dangling_reference[OF h, of 5] v
  have "bookingSave ?db 5 ?b = (?db, Inl DanglingReference)" by blast
  then show ?thesis using h by simp
qed

section \<open>The route handler's claim\<close>

text \<open>
  C9. When the slug of the request (from the route parameters or, failing that,
  from the query string) is missing or does not match the slug pattern, the
  handler answers 400 and starts no database operation. When the slug matches,
  the connection and the query resolve and no stored Event has that slug, the
  body of the handler returns the 404 response normally, after connecting and
  querying once, and that response is the handler's answer.
\<close>

theorem GET_slug_outcomes:
  "(\<not> (\<exists>s. getSlug req = Some s \<and> slugRegexTest s) \<longrightarrow>
      status (fst (GET env req)) = 400 \<and> snd (GET env req) = []) \<and>
   (getSlug req = Some s \<and> slugRegexTest s \<and> connectResolves env \<and> queryResolves env \<and>
    findOneBySlug (collection env) s = None \<longrightarrow>
      GET_try env req = (Inr (jsonError ''Event not found.'' 404), [OpConnect, OpFindOne s]) \<and>
      GET env req = (jsonError ''Event not found.'' 404, [OpConnect, OpFindOne s]))"
proof -
  have p1: "status (fst (GET env req)) = 400 \<and> snd (GET env req) = []"
    if n: "\<not> (\<exists>s. getSlug req = Some s \<and> slugRegexTest s)"
  proof -
    from n have "GET_try env req = (Inr missingSlug, []) \<or> GET_try env req = (Inr invalidSlug, [])"
      by (auto simp: GET_try_def split: option.splits)
    then show ?thesis
      by (auto simp: GET_def missingSlug_def invalidSlug_def jsonError_def)
  qed
  have p2: "GET_try env req = (Inr (jsonError ''Event not found.'' 404), [OpConnect, OpFindOne s]) \<and>
      GET env req = (jsonError ''Event not found.'' 404, [OpConnect, OpFindOne s])"
    if a: "getSlug req = Some s \<and> slugRegexTest s \<and> connectResolves env \<and> queryResolves env \<and>
      findOneBySlug (collection env) s = None"
  proof -
    from a have "s \<noteq> []" by (auto simp: slugRegexTest.simps[of "[]"])
    then have t: "GET_try env req = (Inr (jsonError ''Event not found.'' 404), [OpConnect, OpFindOne s])"
      using a by (simp add: GET_try_def)
    then show ?thesis by (simp add: GET_def)
  qed
  show ?thesis using p1 p2 by blast
qed

theorem GET_slug_outcomes_witness:
  "status (fst (GET \<lparr>connectResolves = True, queryResolves = True, collection = []\<rparr>
                    \<lparr>params = ParamsResolved (Some ''Bad Slug''), querySlug = None\<rparr>)) = 400 \<and>
   snd (GET \<lparr>connectResolves = True, queryResolves = True, collection = []\<rparr>
            \<lparr>params = ParamsResolved (Some ''Bad Slug''), querySlug = None\<rparr>) = [] \<and>
   GET \<lparr>connectResolves = True, queryResolves = True, collection = [(1, sampleEvent)]\<rparr>
       \<lparr>params = ParamsRejected, querySlug = Some ''cloud-next-2027''\<rparr> =
     (jsonError ''Event not found.'' 404, [OpConnect, OpFindOne ''cloud-next-2027''])"
proof -
  let ?env = "\<lparr>connectResolves = True, queryResolves = True, collection = []\<rparr>"
  let ?bad = "\<lparr>params = ParamsResolved (Some ''Bad Slug''), querySlug = None\<rparr>"
  let ?env2 = "\<lparr>connectResolves = True, queryResolves = True, collection = [(1, sampleEvent)]\<rparr>"
  let ?req = "\<lparr>params = ParamsRejected, querySlug = Some ''cloud-next-2027''\<rparr>"
  have g: "getSlug ?bad = Some ''Bad Slug''" by code_simp
  have n: "\<not> slugRegexTest ''Bad Slug''" by code_simp
  have "\<not> (\<exists>s. getSlug ?bad = Some s \<and> slugRegexTest s)" using g n by simp
  then have 1: "status (fst (GET ?env ?bad)) = 400 \<and> snd (GET ?env ?bad) = []"
    using conjunct1[OF GET_slug_outcomes[of ?bad ?env]] by blast
  have h: "getSlug ?req = Some ''cloud-next-2027'' \<and> slugRegexTest ''cloud-next-2027'' \<and>
     connectResolves ?env2 \<and> queryResolves ?env2 \<and>
     findOneBySlug (collection ?env2) ''cloud-next-2027'' = None"
    by code_simp
  have 2: "GET ?env2 ?req = (jsonError ''Event not found.'' 404, [OpConnect, OpFindOne ''cloud-next-2027''])"
    using conjunct2[OF GET_slug_outcomes[of ?req ?env2 "''cloud-next-2027''"]] h by blast
  show ?thesis using 1 2 by simp
qed

end
